theory Spec2Isabelle
  imports Main "HOL-Library.Sublist"
begin

section \<open>Regular expressions as the two scripts use them\<close>

text \<open>
  Both scripts are a regular-expression rewrite of the text of a Markdown file.
  The patterns are kept as syntax trees and run by a small backtracking matcher that
  follows the order in which Python's \<open>re\<close> module tries alternatives: a lazy
  repetition tries what follows it first and one more iteration second, a greedy
  repetition the other way round. The text that \<open>file.read()\<close> returns is a list of
  characters.
\<close>

definition NL :: char where
  "NL = CHR 0x0A"

definition PIPE :: char where
  "PIPE = CHR ''|''"

datatype regex =
    Chr char                \<comment> \<open>a literal character\<close>
  | Dot                     \<comment> \<open>\<open>.\<close> under \<open>re.DOTALL\<close>: any character, a newline too\<close>
  | Seq regex regex         \<comment> \<open>concatenation\<close>
  | LazyStar regex          \<comment> \<open>\<open>r*?\<close>\<close>
  | AtLeast nat regex       \<comment> \<open>\<open>r{n,}\<close>, greedy\<close>
  | Lookbehind char         \<comment> \<open>\<open>(?<=c)\<close>\<close>
  | Lookahead char          \<comment> \<open>\<open>(?=c)\<close>\<close>

text \<open>
  A position in the subject is the pair of the text before it, reversed, and the text
  from it on.
\<close>

type_synonym pos = "string \<times> string"

type_synonym cont = "pos \<Rightarrow> pos option"

fun lazy_iter :: "nat \<Rightarrow> (pos \<Rightarrow> cont \<Rightarrow> pos option) \<Rightarrow> pos \<Rightarrow> cont \<Rightarrow> pos option" where
  "lazy_iter 0 f p k = k p"
| "lazy_iter (Suc n) f p k =
     (case k p of
        Some q \<Rightarrow> Some q
      | None \<Rightarrow> f p (\<lambda>p'. if length (snd p') < length (snd p) then lazy_iter n f p' k else None))"

fun greedy_iter :: "nat \<Rightarrow> (pos \<Rightarrow> cont \<Rightarrow> pos option) \<Rightarrow> pos \<Rightarrow> cont \<Rightarrow> pos option" where
  "greedy_iter 0 f p k = k p"
| "greedy_iter (Suc n) f p k =
     (case f p (\<lambda>p'. if length (snd p') < length (snd p) then greedy_iter n f p' k else None) of
        Some q \<Rightarrow> Some q
      | None \<Rightarrow> k p)"

fun repeat_n :: "nat \<Rightarrow> (pos \<Rightarrow> cont \<Rightarrow> pos option) \<Rightarrow> pos \<Rightarrow> cont \<Rightarrow> pos option" where
  "repeat_n 0 f p k = k p"
| "repeat_n (Suc n) f p k = f p (\<lambda>p'. repeat_n n f p' k)"

text \<open>
  \<open>match r p k\<close> is the first way, in the matcher's order, to match \<open>r\<close> from \<open>p\<close> such
  that the continuation \<open>k\<close> accepts the position reached. An iteration of a repetition
  consumes at least one character in both patterns of the scripts, so the number of
  characters left bounds the number of iterations.
\<close>

primrec match :: "regex \<Rightarrow> pos \<Rightarrow> cont \<Rightarrow> pos option" where
  "match (Chr c) p k =
     (case snd p of [] \<Rightarrow> None | x # xs \<Rightarrow> if x = c then k (x # fst p, xs) else None)"
| "match Dot p k =
     (case snd p of [] \<Rightarrow> None | x # xs \<Rightarrow> k (x # fst p, xs))"
| "match (Seq a b) p k = match a p (\<lambda>p'. match b p' k)"
| "match (LazyStar r) p k = lazy_iter (length (snd p)) (match r) p k"
| "match (AtLeast n r) p k =
     repeat_n n (match r) p (\<lambda>p'. greedy_iter (length (snd p')) (match r) p' k)"
| "match (Lookbehind c) p k =
     (case fst p of [] \<Rightarrow> None | x # xs \<Rightarrow> if x = c then k p else None)"
| "match (Lookahead c) p k =
     (case snd p of [] \<Rightarrow> None | x # xs \<Rightarrow> if x = c then k p else None)"

definition match_at :: "regex \<Rightarrow> pos \<Rightarrow> pos option" where
  "match_at r p = match r p Some"

text \<open>
  \<open>re.sub(pattern, repl, content)\<close>: scan from the left; where the pattern matches, the
  replacement is written and the scan goes on after the match; elsewhere the character
  is copied. The replacement \<open>'\n\n'\<close> has no group reference. Neither pattern of the
  scripts matches the empty string; such a match would be passed over here.
\<close>

function re_sub_from :: "regex \<Rightarrow> string \<Rightarrow> pos \<Rightarrow> string" where
  "re_sub_from r repl (before, rest) =
     (case match_at r (before, rest) of
        Some (before', rest') \<Rightarrow>
          if length rest' < length rest then repl @ re_sub_from r repl (before', rest')
          else (case rest of [] \<Rightarrow> [] | c # cs \<Rightarrow> c # re_sub_from r repl (c # before, cs))
      | None \<Rightarrow>
          (case rest of [] \<Rightarrow> [] | c # cs \<Rightarrow> c # re_sub_from r repl (c # before, cs)))"
  by pat_completeness auto
termination
  by (relation "measure (\<lambda>(r, repl, p). length (snd p))") auto

definition re_sub :: "regex \<Rightarrow> string \<Rightarrow> string \<Rightarrow> string" where
  "re_sub r repl content = re_sub_from r repl ([], content)"

text \<open>
  \<open>re.findall(pattern, content)\<close> for a pattern without groups: the matched texts, left
  to right, each scan starting where the match before it ended.
\<close>

function findall_from :: "regex \<Rightarrow> pos \<Rightarrow> string list" where
  "findall_from r (before, rest) =
     (case match_at r (before, rest) of
        Some (before', rest') \<Rightarrow>
          if length rest' < length rest
          then take (length rest - length rest') rest # findall_from r (before', rest')
          else (case rest of [] \<Rightarrow> [] | c # cs \<Rightarrow> findall_from r (c # before, cs))
      | None \<Rightarrow>
          (case rest of [] \<Rightarrow> [] | c # cs \<Rightarrow> findall_from r (c # before, cs)))"
  by pat_completeness auto
termination
  by (relation "measure (\<lambda>(r, p). length (snd p))") auto

definition findall :: "regex \<Rightarrow> string \<Rightarrow> string list" where
  "findall r content = findall_from r ([], content)"

text \<open>
  \<open>content.replace(old, new)\<close>: every occurrence of \<open>old\<close>, found left to right without
  overlap, becomes \<open>new\<close>; an empty \<open>old\<close> matches before every character and at the end.
\<close>

function str_replace :: "string \<Rightarrow> string \<Rightarrow> string \<Rightarrow> string" where
  "str_replace old new [] = (if old = [] then new else [])"
| "str_replace old new (c # cs) =
     (if old = [] then new @ c # str_replace old new cs
      else if take (length old) (c # cs) = old
           then new @ str_replace old new (drop (length old) (c # cs))
           else c # str_replace old new cs)"
  by pat_completeness auto
termination
  by (relation "measure (\<lambda>(old, new, s). length s)") auto

section \<open>The file system and text-mode input and output\<close>

text \<open>
  A file is a sequence of bytes; the file system maps a path to the bytes of the file.
  Both scripts open their files in text mode with the default arguments,
  \<open>open(file_path, 'r')\<close> and \<open>open(file_path, 'w')\<close>. Reading decodes the bytes with the
  default encoding, taken here to be UTF-8, and raises \<open>UnicodeDecodeError\<close> on bytes that
  are not well-formed; it then turns every \<open>\r\n\<close> and every remaining \<open>\r\<close> into \<open>\n\<close>
  (universal newlines). Writing encodes the text and, on a POSIX system, writes \<open>\n\<close> as
  it is. A text is kept as the sequence of its UTF-8 bytes: the patterns and the
  replacement texts of the scripts are made of ASCII characters only, and in UTF-8 an
  ASCII byte never lies inside the encoding of another character, so matching and
  replacing on the bytes is matching and replacing on the characters.
\<close>

datatype error = IOError | UnicodeDecodeError

type_synonym files = "string \<rightharpoonup> string"

definition CR :: char where
  "CR = CHR 0x0D"

definition continuation :: "nat \<Rightarrow> bool" where
  "continuation b = (128 \<le> b \<and> b \<le> 191)"

text \<open>The byte sequences that the strict UTF-8 decoder accepts.\<close>

fun well_formed_utf8 :: "nat list \<Rightarrow> bool" where
  "well_formed_utf8 [] = True"
| "well_formed_utf8 (b # bs) =
     (if b < 128 then well_formed_utf8 bs
      else if 194 \<le> b \<and> b \<le> 223 then
        (case bs of
           c1 # r \<Rightarrow> continuation c1 \<and> well_formed_utf8 r
         | _ \<Rightarrow> False)
      else if 224 \<le> b \<and> b \<le> 239 then
        (case bs of
           c1 # c2 # r \<Rightarrow>
             (if b = 224 then 160 \<le> c1 \<and> c1 \<le> 191
              else if b = 237 then 128 \<le> c1 \<and> c1 \<le> 159
              else continuation c1) \<and>
             continuation c2 \<and> well_formed_utf8 r
         | _ \<Rightarrow> False)
      else if 240 \<le> b \<and> b \<le> 244 then
        (case bs of
           c1 # c2 # c3 # r \<Rightarrow>
             (if b = 240 then 144 \<le> c1 \<and> c1 \<le> 191
              else if b = 244 then 128 \<le> c1 \<and> c1 \<le> 143
              else continuation c1) \<and>
             continuation c2 \<and> continuation c3 \<and> well_formed_utf8 r
         | _ \<Rightarrow> False)
      else False)"

text \<open>The newline translation of reading with \<open>newline=None\<close>.\<close>

fun universal_newlines :: "string \<Rightarrow> string" where
  "universal_newlines [] = []"
| "universal_newlines [c] = [if c = CR then NL else c]"
| "universal_newlines (c # d # cs) =
     (if c = CR \<and> d = NL then NL # universal_newlines cs
      else if c = CR then NL # universal_newlines (d # cs)
      else c # universal_newlines (d # cs))"

text \<open>\<open>file.read()\<close> on a file opened with \<open>open(file_path, 'r')\<close>.\<close>

definition read_text :: "string \<Rightarrow> error + string" where
  "read_text bytes =
     (if well_formed_utf8 (map of_char bytes) then Inr (universal_newlines bytes)
      else Inl UnicodeDecodeError)"

text \<open>What \<open>file.write(content)\<close> leaves in a file opened with \<open>open(file_path, 'w')\<close>.\<close>

definition write_text :: "string \<Rightarrow> string" where
  "write_text content = content"

section \<open>fix\_multiple\_blanks.py\<close>

text \<open>The pattern \<open>\n{2,}\<close>.\<close>

definition blanks_re :: regex where
  "blanks_re = AtLeast 2 (Chr NL)"

text \<open>The text transformation of \<open>fix_multiple_blanks\<close>, between the read and the write.\<close>

definition fix_multiple_blanks_text :: "string \<Rightarrow> string \<Rightarrow> string" where
  "fix_multiple_blanks_text file_path content =
     (if file_path \<noteq> ''CHANGELOG.md'' then re_sub blanks_re [NL, NL] content else content)"

text \<open>
  \<open>fix_multiple_blanks(file_path)\<close>: opening a path that is not a file raises, and so does
  reading bytes that do not decode, before anything is written; otherwise the file is
  read, transformed and written back.
\<close>

definition fix_multiple_blanks :: "string \<Rightarrow> files \<Rightarrow> error + files" where
  "fix_multiple_blanks file_path fs =
     (case fs file_path of
        None \<Rightarrow> Inl IOError
      | Some bytes \<Rightarrow>
          (case read_text bytes of
             Inl e \<Rightarrow> Inl e
           | Inr content \<Rightarrow>
               Inr (fs(file_path \<mapsto> write_text (fix_multiple_blanks_text file_path content)))))"








section \<open>fix\_tables.py\<close>

text \<open>
  The pattern \<open>(?<=\n)\|.*?\|(?:\n\|.*?\|)*?(?=\n)\<close>, compiled with \<open>re.DOTALL\<close>.
\<close>

definition table_line_re :: regex where
  "table_line_re = Seq (Chr NL) (Seq (Chr PIPE) (Seq (LazyStar Dot) (Chr PIPE)))"

definition table_re :: regex where
  "table_re =
     Seq (Lookbehind NL)
       (Seq (Chr PIPE)
         (Seq (LazyStar Dot)
           (Seq (Chr PIPE)
             (Seq (LazyStar table_line_re)
               (Lookahead NL)))))"

text \<open>\<open>'\n' + table + '\n'\<close>.\<close>

definition table_with_blanks :: "string \<Rightarrow> string" where
  "table_with_blanks table = [NL] @ table @ [NL]"

text \<open>
  The text transformation of \<open>fix_table_formatting\<close>: the tables are found once, in the
  content as read; the loop then rewrites the content table by table, each
  \<open>replace\<close> working on the content the one before it left.
\<close>

definition fix_table_formatting_text :: "string \<Rightarrow> string" where
  "fix_table_formatting_text content =
     foldl (\<lambda>content table. str_replace table (table_with_blanks table) content)
           content (findall table_re content)"

definition fix_table_formatting :: "string \<Rightarrow> files \<Rightarrow> error + files" where
  "fix_table_formatting file_path fs =
     (case fs file_path of
        None \<Rightarrow> Inl IOError
      | Some bytes \<Rightarrow>
          (case read_text bytes of
             Inl e \<Rightarrow> Inl e
           | Inr content \<Rightarrow> Inr (fs(file_path \<mapsto> write_text (fix_table_formatting_text content)))))"

section \<open>Auxiliary notions\<close>

text \<open>A text that begins with a newline; a text with three newlines in a row somewhere.\<close>

definition starts_nl :: "string \<Rightarrow> bool" where
  "starts_nl s = (s \<noteq> [] \<and> hd s = NL)"

definition has_triple :: "string \<Rightarrow> bool" where
  "has_triple s = (\<exists>u v. s = u @ [NL, NL, NL] @ v)"

abbreviation blanks_from :: "pos \<Rightarrow> string" where
  "blanks_from p \<equiv> re_sub_from blanks_re [NL, NL] p"

text \<open>
  What is left of the table pattern after its first \<open>.*?\<close>: a pipe with a newline after
  it. A text in which the table pattern can match: a pipe directly after a newline and,
  later, a pipe directly before a newline.
\<close>

definition pipe_nl :: cont where
  "pipe_nl q =
     (case snd q of
        x # y # rest \<Rightarrow> if x = PIPE \<and> y = NL then Some (x # fst q, y # rest) else None
      | _ \<Rightarrow> None)"

definition has_table :: "string \<Rightarrow> bool" where
  "has_table s = (\<exists>u v w. s = u @ [NL, PIPE] @ v @ [PIPE, NL] @ w)"

abbreviation tables_from :: "pos \<Rightarrow> string list" where
  "tables_from p \<equiv> findall_from table_re p"

abbreviation pad_step :: "string \<Rightarrow> string \<Rightarrow> string" where
  "pad_step content table \<equiv> str_replace table (table_with_blanks table) content"

text \<open>
  The loop of \<open>fix_table_formatting\<close> on a text, for a given list of tables;
  \<open>sep.join(pieces)\<close>; and the shape of what the table pattern matches: a text from a pipe
  to a pipe in which no pipe after the first has a newline directly after it, the last
  one apart.
\<close>

definition apply_tables :: "string list \<Rightarrow> string \<Rightarrow> string" where
  "apply_tables tables content = foldl pad_step content tables"

fun str_join :: "string \<Rightarrow> string list \<Rightarrow> string" where
  "str_join sep [] = []"
| "str_join sep [x] = x"
| "str_join sep (x # y # xs) = x @ sep @ str_join sep (y # xs)"


declare re_sub_from.simps [simp del] findall_from.simps [simp del]

section \<open>What the pattern of fix\_multiple\_blanks.py matches\<close>

lemma greedy_iter_chr:
  "length s \<le> n \<Longrightarrow>
   greedy_iter n (match (Chr c)) (b, s) Some =
     Some (rev (takeWhile (\<lambda>x. x = c) s) @ b, dropWhile (\<lambda>x. x = c) s)"
proof (induction n arbitrary: b s)
  case 0
  then show ?case by simp
next
  case (Suc n)
  show ?case
  proof (cases s)
    case Nil
    then show ?thesis by simp
  next
    case (Cons x xs)
    with Suc.prems have "length xs \<le> n" by simp
    from Suc.IH [OF this] Cons show ?thesis by simp
  qed
qed

lemma match_blanks:
  "match_at blanks_re (b, s) =
     (case s of
        c1 # c2 # rest \<Rightarrow>
          if c1 = NL \<and> c2 = NL
          then Some (rev (takeWhile (\<lambda>x. x = NL) rest) @ NL # NL # b, dropWhile (\<lambda>x. x = NL) rest)
          else None
      | _ \<Rightarrow> None)"
  by (auto simp: match_at_def blanks_re_def numeral_2_eq_2 greedy_iter_chr split: list.splits)

section \<open>The substitution of fix\_multiple\_blanks.py, step by step\<close>

lemma blanks_nil: "blanks_from (b, []) = []"
  by (simp add: match_blanks re_sub_from.simps)

lemma blanks_single: "blanks_from (b, [c]) = [c]"
  by (simp add: match_blanks re_sub_from.simps [of _ _ _ "[c]"] blanks_nil)

lemma blanks_match:
  "blanks_from (b, NL # NL # rest) =
     NL # NL # blanks_from (rev (takeWhile (\<lambda>x. x = NL) rest) @ NL # NL # b, dropWhile (\<lambda>x. x = NL) rest)"
proof -
  have "length (dropWhile (\<lambda>x. x = NL) rest) < Suc (Suc (length rest))"
    using length_dropWhile_le [of "\<lambda>x. x = NL" rest] by simp
  then show ?thesis
    by (simp add: match_blanks re_sub_from.simps [of blanks_re "[NL, NL]" b "NL # NL # rest"])
qed

lemma blanks_copy:
  "\<not> (c1 = NL \<and> c2 = NL) \<Longrightarrow> blanks_from (b, c1 # c2 # rest) = c1 # blanks_from (c1 # b, c2 # rest)"
  by (auto simp add: match_blanks re_sub_from.simps [of blanks_re "[NL, NL]" b "c1 # c2 # rest"])

lemma blanks_before: "blanks_from (b, s) = blanks_from (b', s)"
proof (induction "length s" arbitrary: s b b' rule: less_induct)
  case less
  show ?case
  proof (cases s)
    case Nil
    then show ?thesis by (simp add: blanks_nil)
  next
    case (Cons c1 s1)
    note s = this
    show ?thesis
    proof (cases s1)
      case Nil
      with s show ?thesis by (simp add: blanks_single)
    next
      case (Cons c2 rest)
      show ?thesis
      proof (cases "c1 = NL \<and> c2 = NL")
        case True
        have "length (dropWhile (\<lambda>x. x = NL) rest) < length s"
          using length_dropWhile_le [of "\<lambda>x. x = NL" rest] s Cons by simp
        from less [OF this] True s Cons show ?thesis
          by (simp add: blanks_match)
      next
        case False
        have "length s1 < length s" using s by simp
        from less [OF this] False s Cons show ?thesis
          by (simp add: blanks_copy)
      qed
    qed
  qed
qed

lemma starts_nl_simps [simp]: "\<not> starts_nl []" "starts_nl (c # s) = (c = NL)"
  by (simp_all add: starts_nl_def)

lemma dropWhile_not_starts: "\<not> starts_nl (dropWhile (\<lambda>x. x = NL) s)"
  by (induction s) auto

lemma blanks_head: "\<not> starts_nl s \<Longrightarrow> \<not> starts_nl (blanks_from (b, s))"
proof (cases s)
  case Nil
  then show ?thesis by (simp add: blanks_nil)
next
  case (Cons c1 s1)
  assume "\<not> starts_nl s"
  with Cons have "c1 \<noteq> NL" by simp
  then show ?thesis using Cons
    by (cases s1) (simp_all add: blanks_single blanks_copy)
qed

lemma triple_nil [simp]: "\<not> has_triple []"
  by (simp add: has_triple_def)

lemma triple_cons:
  "has_triple (c # s) = ((c = NL \<and> (\<exists>v. s = NL # NL # v)) \<or> has_triple s)"
  by (auto simp: has_triple_def Cons_eq_append_conv)

lemma blanks_no_triple: "\<not> has_triple (blanks_from (b, s))"
proof (induction "length s" arbitrary: s b rule: less_induct)
  case less
  show ?case
  proof (cases s)
    case Nil
    then show ?thesis by (simp add: blanks_nil)
  next
    case (Cons c1 s1)
    note s = this
    show ?thesis
    proof (cases s1)
      case Nil
      with s show ?thesis by (simp add: blanks_single triple_cons)
    next
      case (Cons c2 rest)
      show ?thesis
      proof (cases "c1 = NL \<and> c2 = NL")
        case True
        let ?d = "dropWhile (\<lambda>x. x = NL) rest"
        let ?b = "rev (takeWhile (\<lambda>x. x = NL) rest) @ NL # NL # b"
        have "length ?d < length s"
          using length_dropWhile_le [of "\<lambda>x. x = NL" rest] s Cons by simp
        from less [OF this] have ih: "\<not> has_triple (blanks_from (?b, ?d))" .
        have hd: "\<not> starts_nl (blanks_from (?b, ?d))"
          by (rule blanks_head) (rule dropWhile_not_starts)
        have "blanks_from (b, s) = NL # NL # blanks_from (?b, ?d)"
          using True s Cons by (simp add: blanks_match)
        with ih hd show ?thesis
          by (auto simp: triple_cons)
      next
        case False
        have "length s1 < length s" using s by simp
        from less [OF this] have ih: "\<not> has_triple (blanks_from (c1 # b, s1))" .
        have eq: "blanks_from (b, s) = c1 # blanks_from (c1 # b, s1)"
          using False s Cons by (simp add: blanks_copy)
        show ?thesis
        proof (cases "c1 = NL")
          case True
          with False have "\<not> starts_nl s1" using Cons by simp
          then have "\<not> starts_nl (blanks_from (c1 # b, s1))" by (rule blanks_head)
          with ih eq show ?thesis by (auto simp: triple_cons)
        next
          case False
          with ih eq show ?thesis by (auto simp: triple_cons)
        qed
      qed
    qed
  qed
qed

lemma blanks_fixpoint: "\<not> has_triple (s) \<Longrightarrow> blanks_from (b, s) = s"
proof (induction "length s" arbitrary: s b rule: less_induct)
  case less
  show ?case
  proof (cases s)
    case Nil
    then show ?thesis by (simp add: blanks_nil)
  next
    case (Cons c1 s1)
    note s = this
    from less.prems s have nt1: "\<not> has_triple (s1)"
      by (simp add: triple_cons)
    have "length s1 < length s" using s by simp
    from less.hyps [OF this nt1] have ih1: "\<And>b. blanks_from (b, s1) = s1" .
    show ?thesis
    proof (cases s1)
      case Nil
      with s show ?thesis by (simp add: blanks_single)
    next
      case (Cons c2 rest)
      show ?thesis
      proof (cases "c1 = NL \<and> c2 = NL")
        case True
        with less.prems s Cons have "\<not> starts_nl rest"
          by (cases rest) (auto simp: triple_cons)
        then have d: "dropWhile (\<lambda>x. x = NL) rest = rest" "takeWhile (\<lambda>x. x = NL) rest = []"
          by (cases rest; simp)+
        from nt1 Cons have nt2: "\<not> has_triple (rest)"
          by (simp add: triple_cons)
        have "length rest < length s" using s Cons by simp
        from less.hyps [OF this nt2] have "\<And>b. blanks_from (b, rest) = rest" .
        with True s Cons d show ?thesis by (simp add: blanks_match)
      next
        case False
        with ih1 s Cons show ?thesis by (simp add: blanks_copy)
      qed
    qed
  qed
qed

lemma blanks_idem: "blanks_from (b', blanks_from (b, s)) = blanks_from (b, s)"
  by (rule blanks_fixpoint) (rule blanks_no_triple)

lemma blanks_append: "a = [] \<or> last a \<noteq> NL \<Longrightarrow> blanks_from (b, a @ s) = blanks_from (b, a) @ blanks_from (b', s)"
proof (induction "length a" arbitrary: a b rule: less_induct)
  case less
  show ?case
  proof (cases a)
    case Nil
    then show ?thesis using blanks_before [of b s b'] by (simp add: blanks_nil)
  next
    case (Cons c1 a1)
    note a = this
    show ?thesis
    proof (cases a1)
      case Nil
      with a less.prems have c1: "c1 \<noteq> NL" by simp
      have "blanks_from (b, c1 # s) = c1 # blanks_from (b', s)"
        using c1 blanks_before [of "c1 # b" s b'] by (cases s) (simp_all add: blanks_single blanks_nil blanks_copy)
      with a Nil show ?thesis by (simp add: blanks_single)
    next
      case (Cons c2 rest)
      from less.prems a Cons have last: "last (c2 # rest) \<noteq> NL" by simp
      show ?thesis
      proof (cases "c1 = NL \<and> c2 = NL")
        case True
        let ?P = "\<lambda>x. x = NL"
        from last True have rest: "rest \<noteq> []" "last rest \<noteq> NL" by (auto split: if_splits)
        then have ex: "\<exists>x\<in>set rest. \<not> ?P x" using last_in_set by blast
        then have tw: "takeWhile ?P (rest @ s) = takeWhile ?P rest"
          and dw: "dropWhile ?P (rest @ s) = dropWhile ?P rest @ s"
          by auto
        from ex have dne: "dropWhile ?P rest \<noteq> []" by simp
        have "last (dropWhile ?P rest) = last rest"
          using dne by (metis takeWhile_dropWhile_id last_appendR)
        with rest dne have p: "dropWhile ?P rest = [] \<or> last (dropWhile ?P rest) \<noteq> NL" by simp
        have "length (dropWhile ?P rest) < length a"
          using length_dropWhile_le [of ?P rest] a Cons by simp
        from less.hyps [OF this p] True a Cons tw dw show ?thesis
          by (simp add: blanks_match)
      next
        case False
        have "length a1 < length a" using a by simp
        moreover have "a1 = [] \<or> last a1 \<noteq> NL" using last Cons by simp
        ultimately have "blanks_from (c1 # b, a1 @ s) = blanks_from (c1 # b, a1) @ blanks_from (b', s)"
          by (rule less.hyps)
        with False a Cons show ?thesis by (simp add: blanks_copy)
      qed
    qed
  qed
qed

lemma blanks_run:
  assumes "2 \<le> n" and "\<not> starts_nl t"
  shows "blanks_from (b, replicate n NL @ t) = NL # NL # blanks_from (b', t)"
proof -
  from assms(1) obtain m where n: "n = Suc (Suc m)"
    by (metis add_2_eq_Suc le_Suc_ex)
  have tw: "dropWhile (\<lambda>x. x = NL) (replicate m NL @ t) = t"
    using assms(2) by (induction m) (auto simp: starts_nl_def dropWhile_eq_self_iff)
  show ?thesis
    using blanks_before [of _ t b'] by (simp add: n blanks_match tw)
qed

section \<open>The paths that the walk produces\<close>






section \<open>Properties of fix\_multiple\_blanks.py\<close>

text \<open>
  C5. The blank-line normalizer is idempotent: transforming the text of a file a second
  time gives what the first transformation gave. (It holds for the exempted path as well,
  where the transformation is the identity.)
\<close>

theorem fix_multiple_blanks_text_idempotent:
  "fix_multiple_blanks_text file_path (fix_multiple_blanks_text file_path content) =
   fix_multiple_blanks_text file_path content"
  by (simp add: fix_multiple_blanks_text_def re_sub_def blanks_idem)

text \<open>
  C6. For a path other than \<open>CHANGELOG.md\<close> the output of the normalizer has no three
  newline characters in a row.
\<close>

theorem fix_multiple_blanks_text_no_triple:
  "file_path \<noteq> ''CHANGELOG.md'' \<Longrightarrow>
   \<not> (\<exists>u v. fix_multiple_blanks_text file_path content = u @ [NL, NL, NL] @ v)"
  using blanks_no_triple [of "[]" content]
  by (simp add: fix_multiple_blanks_text_def re_sub_def has_triple_def)

theorem fix_multiple_blanks_text_no_triple_witness:
  "''README.md'' \<noteq> ''CHANGELOG.md'' \<and>
   \<not> (\<exists>u v. fix_multiple_blanks_text ''README.md'' ''a\<newline>\<newline>\<newline>\<newline>\<newline>b'' = u @ [NL, NL, NL] @ v)"
proof -
  have h: "''README.md'' \<noteq> ''CHANGELOG.md''" by simp
  from fix_multiple_blanks_text_no_triple [OF h] h show ?thesis by blast
qed

text \<open>Reading a file without a carriage return changes nothing but the type.\<close>

lemma universal_newlines_id: "CR \<notin> set s \<Longrightarrow> universal_newlines s = s"
  by (induction s rule: universal_newlines.induct) auto

text \<open>
  C7, as the code has it. Called with the path \<open>CHANGELOG.md\<close> on a file that has no
  carriage return in it, the normalizer leaves the file as it is, byte for byte: if the
  bytes decode it writes back the bytes it read, and if they do not it raises before
  anything is written.
\<close>

theorem fix_multiple_blanks_changelog_unchanged:
  "fs ''CHANGELOG.md'' = Some bytes \<Longrightarrow> CR \<notin> set bytes \<Longrightarrow>
   fix_multiple_blanks ''CHANGELOG.md'' fs =
     (if well_formed_utf8 (map of_char bytes) then Inr fs else Inl UnicodeDecodeError)"
  by (simp add: fix_multiple_blanks_def fix_multiple_blanks_text_def read_text_def write_text_def
        universal_newlines_id map_upd_triv)

text \<open>The theorem at scenario C of the specification, a file of \<open>"a\n\n\n\nb\n"\<close>.\<close>

theorem fix_multiple_blanks_changelog_unchanged_witness:
  "[''CHANGELOG.md'' \<mapsto> ''a\<newline>\<newline>\<newline>\<newline>b\<newline>''] ''CHANGELOG.md'' = Some ''a\<newline>\<newline>\<newline>\<newline>b\<newline>'' \<and>
   CR \<notin> set ''a\<newline>\<newline>\<newline>\<newline>b\<newline>'' \<and>
   fix_multiple_blanks ''CHANGELOG.md'' [''CHANGELOG.md'' \<mapsto> ''a\<newline>\<newline>\<newline>\<newline>b\<newline>''] =
     Inr [''CHANGELOG.md'' \<mapsto> ''a\<newline>\<newline>\<newline>\<newline>b\<newline>'']"
proof -
  have h1: "[''CHANGELOG.md'' \<mapsto> ''a\<newline>\<newline>\<newline>\<newline>b\<newline>''] ''CHANGELOG.md'' = Some ''a\<newline>\<newline>\<newline>\<newline>b\<newline>''"
    by simp
  have h2: "CR \<notin> set ''a\<newline>\<newline>\<newline>\<newline>b\<newline>''"
    by (simp add: CR_def)
  have w: "well_formed_utf8 (map of_char ''a\<newline>\<newline>\<newline>\<newline>b\<newline>'')"
    by code_simp
  from fix_multiple_blanks_changelog_unchanged
         [of "[''CHANGELOG.md'' \<mapsto> ''a\<newline>\<newline>\<newline>\<newline>b\<newline>'']" "''a\<newline>\<newline>\<newline>\<newline>b\<newline>''", OF h1 h2] w h1 h2
  show ?thesis by simp
qed

text \<open>
  A \<open>CHANGELOG.md\<close> with Windows line ends, \<open>"a\r\n\r\nb\r\n"\<close>: reading turns each
  \<open>\r\n\<close> into \<open>\n\<close>, the exemption skips the substitution, and \<open>"a\n\nb\n"\<close> is written
  back. The bytes of the file have changed.
\<close>

theorem fix_multiple_blanks_changelog_crlf_rewritten:
  "(case fix_multiple_blanks ''CHANGELOG.md''
           [''CHANGELOG.md'' \<mapsto> ''a'' @ [CR, NL, CR, NL] @ ''b'' @ [CR, NL]] of
      Inl e \<Rightarrow> None
    | Inr fs \<Rightarrow> fs ''CHANGELOG.md'') = Some (''a'' @ [NL, NL] @ ''b'' @ [NL]) \<and>
   ''a'' @ [NL, NL] @ ''b'' @ [NL] \<noteq> ''a'' @ [CR, NL, CR, NL] @ ''b'' @ [CR, NL]"
proof -
  have "(case fix_multiple_blanks ''CHANGELOG.md''
           [''CHANGELOG.md'' \<mapsto> ''a'' @ [CR, NL, CR, NL] @ ''b'' @ [CR, NL]] of
      Inl e \<Rightarrow> None
    | Inr fs \<Rightarrow> fs ''CHANGELOG.md'') = Some (''a'' @ [NL, NL] @ ''b'' @ [NL])"
    by code_simp
  then show ?thesis by (simp add: CR_def NL_def)
qed

text \<open>
  C8. Every maximal run of two or more newlines becomes exactly two newlines: where a
  run of \<open>n \<ge> 2\<close> newlines stands between a text \<open>a\<close> that does not end with a newline
  and a text \<open>t\<close> that does not begin with one, the output is the output for \<open>a\<close>, two
  newlines, and the output for \<open>t\<close>. The scenario of the specification,
  \<open>"line1\n\n\n\nline2\n"\<close>, is the instance that follows the theorem.
\<close>

theorem fix_multiple_blanks_text_run:
  assumes "file_path \<noteq> ''CHANGELOG.md''" and "2 \<le> n"
    and "a = [] \<or> last a \<noteq> NL" and "t = [] \<or> hd t \<noteq> NL"
  shows "fix_multiple_blanks_text file_path (a @ replicate n NL @ t) =
         fix_multiple_blanks_text file_path a @ [NL, NL] @ fix_multiple_blanks_text file_path t"
proof -
  from assms(4) have t: "\<not> starts_nl t" by (auto simp: starts_nl_def)
  have "blanks_from ([], a @ replicate n NL @ t) =
        blanks_from ([], a) @ blanks_from ([], replicate n NL @ t)"
    using assms(3) by (rule blanks_append)
  also have "blanks_from ([], replicate n NL @ t) = NL # NL # blanks_from ([], t)"
    using assms(2) t by (rule blanks_run)
  finally show ?thesis using assms(1)
    by (simp add: fix_multiple_blanks_text_def re_sub_def)
qed

theorem fix_multiple_blanks_text_run_witness:
  "''notes.md'' \<noteq> ''CHANGELOG.md'' \<and> (2::nat) \<le> 4 \<and>
   (''line1'' = [] \<or> last ''line1'' \<noteq> NL) \<and> (''line2\<newline>'' = [] \<or> hd ''line2\<newline>'' \<noteq> NL) \<and>
   fix_multiple_blanks_text ''notes.md'' ''line1\<newline>\<newline>\<newline>\<newline>line2\<newline>'' = ''line1\<newline>\<newline>line2\<newline>''"
proof -
  have h1: "''notes.md'' \<noteq> ''CHANGELOG.md''" by simp
  have h2: "(2::nat) \<le> 4" by simp
  have h3: "''line1'' = [] \<or> last ''line1'' \<noteq> NL" by (simp add: NL_def)
  have h4: "''line2\<newline>'' = [] \<or> hd ''line2\<newline>'' \<noteq> NL" by (simp add: NL_def)
  have a: "fix_multiple_blanks_text ''notes.md'' ''line1'' = ''line1''" by code_simp
  have t: "fix_multiple_blanks_text ''notes.md'' ''line2\<newline>'' = ''line2\<newline>''" by code_simp
  have i: "''line1'' @ replicate 4 NL @ ''line2\<newline>'' = ''line1\<newline>\<newline>\<newline>\<newline>line2\<newline>''"
    by (simp add: NL_def numeral_eq_Suc)
  have o: "''line1'' @ [NL, NL] @ ''line2\<newline>'' = ''line1\<newline>\<newline>line2\<newline>''"
    by (simp add: NL_def)
  from fix_multiple_blanks_text_run [OF h1 h2 h3 h4] a t i o h1 h2 h3 h4 show ?thesis
    by simp
qed



section \<open>What the pattern of fix\_tables.py matches\<close>

lemma table_tail:
  "match (LazyStar table_line_re) q (\<lambda>q'. match (Lookahead NL) q' Some) =
     (if starts_nl (snd q) then Some q else None)"
proof (cases "snd q")
  case Nil
  then show ?thesis by (simp add: starts_nl_def)
next
  case (Cons y rest)
  then show ?thesis
    by (simp add: starts_nl_def table_line_re_def)
qed

lemma table_cont:
  "match (Chr PIPE) q (\<lambda>q'. match (LazyStar table_line_re) q' (\<lambda>q''. match (Lookahead NL) q'' Some)) =
     pipe_nl q"
  by (simp only: table_tail) (auto simp: pipe_nl_def starts_nl_def split: list.splits)

lemma match_table_unfold:
  "match_at table_re p =
     match (Lookbehind NL) p (\<lambda>p1. match (Chr PIPE) p1 (\<lambda>p2. match (LazyStar Dot) p2 pipe_nl))"
  by (simp only: match_at_def table_re_def match.simps(3) table_cont)

lemma match_table:
  "match_at table_re (b, s) =
     (case b of
        [] \<Rightarrow> None
      | x # b0 \<Rightarrow>
          if x = NL
          then (case s of
                  [] \<Rightarrow> None
                | y # s1 \<Rightarrow> if y = PIPE then lazy_iter (length s1) (match Dot) (y # b, s1) pipe_nl else None)
          else None)"
  by (simp add: match_table_unfold del: match.simps(2) split: list.splits)

declare match.simps(2) [simp del] lazy_iter.simps [simp del]

lemma lazy_dot_nil: "lazy_iter n (match Dot) (b, []) k = k (b, [])"
  by (cases n) (simp_all add: lazy_iter.simps match.simps(2) split: option.splits)

lemma lazy_dot_cons:
  "lazy_iter (Suc n) (match Dot) (b, x # xs) k =
     (case k (b, x # xs) of
        Some q \<Rightarrow> Some q
      | None \<Rightarrow> lazy_iter n (match Dot) (x # b, xs) k)"
proof -
  have "match Dot (b, x # xs) (\<lambda>p'. if length (snd p') < length (snd (b, x # xs))
                                      then lazy_iter n (match Dot) p' k else None) =
        lazy_iter n (match Dot) (x # b, xs) k"
    by (subst match.simps(2)) simp
  then show ?thesis by (simp only: lazy_iter.simps)
qed

lemma lazy_dot_sound:
  "lazy_iter n (match Dot) (b, s) k = Some r \<Longrightarrow>
   \<exists>v s'. s = v @ s' \<and> k (rev v @ b, s') = Some r"
proof (induction n arbitrary: b s)
  case 0
  then have "s = [] @ s \<and> k (rev [] @ b, s) = Some r" by (simp add: lazy_iter.simps)
  then show ?case by blast
next
  case (Suc n)
  show ?case
  proof (cases "k (b, s)")
    case (Some q)
    with Suc.prems have "s = [] @ s \<and> k (rev [] @ b, s) = Some r"
      by (cases s) (simp_all add: lazy_dot_nil lazy_dot_cons)
    then show ?thesis by blast
  next
    case None
    show ?thesis
    proof (cases s)
      case Nil
      with None Suc.prems show ?thesis by (simp add: lazy_dot_nil)
    next
      case (Cons x xs)
      with None Suc.prems have "lazy_iter n (match Dot) (x # b, xs) k = Some r"
        by (simp add: lazy_dot_cons)
      from Suc.IH [OF this] obtain v s' where "xs = v @ s'" "k (rev v @ x # b, s') = Some r"
        by blast
      then have "s = (x # v) @ s' \<and> k (rev (x # v) @ b, s') = Some r"
        using Cons by simp
      then show ?thesis by blast
    qed
  qed
qed

lemma match_table_sound:
  assumes "match_at table_re (b, s) = Some (b', s')"
  shows "\<exists>b0 v w. b = NL # b0 \<and> s = PIPE # v @ PIPE # NL # w \<and> s' = NL # w \<and>
                   b' = PIPE # rev v @ PIPE # b"
proof -
  from assms obtain b0 s1 where b: "b = NL # b0" and s: "s = PIPE # s1"
    and l: "lazy_iter (length s1) (match Dot) (PIPE # b, s1) pipe_nl = Some (b', s')"
    by (auto simp: match_table split: list.splits if_splits)
  from lazy_dot_sound [OF l] obtain v t where s1: "s1 = v @ t"
    and k: "pipe_nl (rev v @ PIPE # b, t) = Some (b', s')" by blast
  from k obtain w where "t = PIPE # NL # w" "s' = NL # w" "b' = PIPE # rev v @ PIPE # b"
    by (auto simp: pipe_nl_def split: list.splits if_splits)
  with b s s1 show ?thesis by simp
qed

lemma lazy_dot_line:
  "NL \<notin> set v \<Longrightarrow> length (v @ PIPE # NL # w) \<le> n \<Longrightarrow>
   lazy_iter n (match Dot) (b, v @ PIPE # NL # w) pipe_nl = Some (PIPE # rev v @ b, NL # w)"
proof (induction v arbitrary: b n)
  case Nil
  then obtain m where "n = Suc m" by (cases n) auto
  then show ?case by (simp add: pipe_nl_def lazy_dot_cons)
next
  case (Cons x v)
  then obtain m where n: "n = Suc m" by (cases n) auto
  from Cons.prems have nl: "NL \<notin> set v" "x \<noteq> NL" and len: "length (v @ PIPE # NL # w) \<le> m"
    using n by auto
  have none: "pipe_nl (b, (x # v) @ PIPE # NL # w) = None"
    using nl by (cases v) (auto simp: pipe_nl_def NL_def PIPE_def)
  from Cons.IH [OF nl(1) len] none show ?case
    by (simp add: n lazy_dot_cons)
qed

lemma match_table_line:
  "NL \<notin> set v \<Longrightarrow>
   match_at table_re (NL # b0, PIPE # v @ PIPE # NL # w) = Some (PIPE # rev v @ PIPE # NL # b0, NL # w)"
  by (simp add: match_table lazy_dot_line)

lemma lazy_dot_some:
  "length (v @ PIPE # NL # w) \<le> n \<Longrightarrow>
   lazy_iter n (match Dot) (b, v @ PIPE # NL # w) pipe_nl \<noteq> None"
proof (induction v arbitrary: b n)
  case Nil
  then obtain m where "n = Suc m" by (cases n) auto
  then show ?case by (simp add: pipe_nl_def lazy_dot_cons)
next
  case (Cons x v)
  then obtain m where n: "n = Suc m" by (cases n) auto
  from Cons.prems have len: "length (v @ PIPE # NL # w) \<le> m"
    using n by auto
  from Cons.IH [OF len] show ?case
    by (auto simp: n lazy_dot_cons split: option.splits)
qed

lemma match_table_some:
  "match_at table_re (NL # b0, PIPE # v @ PIPE # NL # w) \<noteq> None"
  using lazy_dot_some [of v w "length (v @ PIPE # NL # w)"] by (simp add: match_table)

lemma match_table_no_lookbehind: "b = [] \<or> hd b \<noteq> NL \<Longrightarrow> match_at table_re (b, s) = None"
  by (auto simp: match_table split: list.splits)

lemma match_table_no_pipe: "s = [] \<or> hd s \<noteq> PIPE \<Longrightarrow> match_at table_re (b, s) = None"
  by (auto simp: match_table split: list.splits)

section \<open>The scan of fix\_tables.py\<close>

lemma tables_nil: "tables_from (b, []) = []"
  by (simp add: findall_from.simps match_table_no_pipe)

lemma tables_skip:
  "match_at table_re (b, c # cs) = None \<Longrightarrow> tables_from (b, c # cs) = tables_from (c # b, cs)"
  by (simp add: findall_from.simps [of _ b "c # cs"])

lemma tables_skip_no_pipe: "PIPE \<notin> set u \<Longrightarrow> tables_from (b, u @ s) = tables_from (rev u @ b, s)"
proof (induction u arbitrary: b)
  case Nil
  then show ?case by simp
next
  case (Cons x u)
  then have "match_at table_re (b, x # u @ s) = None"
    by (intro match_table_no_pipe) auto
  with Cons show ?case by (simp add: tables_skip)
qed

lemma tables_skip_no_nl:
  "b = [] \<or> hd b \<noteq> NL \<Longrightarrow> NL \<notin> set u \<Longrightarrow> tables_from (b, u @ s) = tables_from (rev u @ b, s)"
proof (induction u arbitrary: b)
  case Nil
  then show ?case by simp
next
  case (Cons x u)
  from Cons.prems(1) have "match_at table_re (b, x # u @ s) = None"
    by (rule match_table_no_lookbehind)
  moreover have "tables_from (x # b, u @ s) = tables_from (rev u @ x # b, s)"
    using Cons.prems(2) by (intro Cons.IH) auto
  ultimately show ?case by (simp add: tables_skip)
qed

lemma tables_match:
  assumes "match_at table_re (b, s) = Some (b', s')"
  shows "\<exists>v w. s = PIPE # v @ PIPE # NL # w \<and> s' = NL # w \<and> b' = PIPE # rev v @ PIPE # b \<and>
               tables_from (b, s) = (PIPE # v @ [PIPE]) # tables_from (b', s')"
proof -
  from match_table_sound [OF assms] obtain b0 v w where
    f: "b = NL # b0" "s = PIPE # v @ PIPE # NL # w" "s' = NL # w" "b' = PIPE # rev v @ PIPE # b"
    by blast
  have "length s' < length s" using f by simp
  with assms have "tables_from (b, s) = take (length s - length s') s # tables_from (b', s')"
    by (simp add: findall_from.simps [of _ b s])
  moreover have "take (length s - length s') s = PIPE # v @ [PIPE]"
    using f by simp
  ultimately show ?thesis using f by simp
qed

lemma tables_line:
  "NL \<notin> set v \<Longrightarrow>
   tables_from (NL # b0, PIPE # v @ PIPE # NL # w) =
     (PIPE # v @ [PIPE]) # tables_from (PIPE # rev v @ PIPE # NL # b0, NL # w)"
proof -
  assume "NL \<notin> set v"
  then have "match_at table_re (NL # b0, PIPE # v @ PIPE # NL # w) =
               Some (PIPE # rev v @ PIPE # NL # b0, NL # w)"
    by (rule match_table_line)
  from tables_match [OF this] show ?thesis by auto
qed

lemma tables_sound:
  "t \<in> set (tables_from (b, s)) \<Longrightarrow>
   \<exists>u v w. rev b @ s = u @ [NL] @ t @ [NL] @ w \<and> t = PIPE # v @ [PIPE]"
proof (induction "length s" arbitrary: b s rule: less_induct)
  case less
  show ?case
  proof (cases "match_at table_re (b, s)")
    case None
    show ?thesis
    proof (cases s)
      case Nil
      with less.prems show ?thesis by (simp add: tables_nil)
    next
      case (Cons c cs)
      with None less.prems have "t \<in> set (tables_from (c # b, cs))"
        by (simp add: tables_skip)
      moreover have "length cs < length s" using Cons by simp
      ultimately have "\<exists>u v w. rev (c # b) @ cs = u @ [NL] @ t @ [NL] @ w \<and> t = PIPE # v @ [PIPE]"
        by (rule less.hyps [rotated])
      with Cons show ?thesis by simp
    qed
  next
    case (Some q)
    obtain b' s' where q: "q = (b', s')" by (cases q)
    from match_table_sound [OF Some [unfolded q]] obtain b0 v w where
      f: "b = NL # b0" "s = PIPE # v @ PIPE # NL # w" "s' = NL # w" "b' = PIPE # rev v @ PIPE # b"
      by blast
    from tables_match [OF Some [unfolded q]] f
    have eq: "tables_from (b, s) = (PIPE # v @ [PIPE]) # tables_from (b', s')" by auto
    from less.prems eq consider "t = PIPE # v @ [PIPE]" | "t \<in> set (tables_from (b', s'))"
      by auto
    then show ?thesis
    proof cases
      case 1
      have "rev b @ s = rev b0 @ [NL] @ (PIPE # v @ [PIPE]) @ [NL] @ w"
        using f by simp
      with 1 show ?thesis by blast
    next
      case 2
      have "length s' < length s" using f by simp
      from less.hyps [OF this 2] obtain u v' w' where
        "rev b' @ s' = u @ [NL] @ t @ [NL] @ w'" "t = PIPE # v' @ [PIPE]" by blast
      moreover have "rev b' @ s' = rev b @ s" using f by simp
      ultimately show ?thesis by metis
    qed
  qed
qed

lemma tables_nonempty_skip: "tables_from (rev u @ b, s) \<noteq> [] \<Longrightarrow> tables_from (b, u @ s) \<noteq> []"
proof (induction u arbitrary: b)
  case Nil
  then show ?case by simp
next
  case (Cons x u)
  show ?case
  proof (cases "match_at table_re (b, (x # u) @ s)")
    case None
    with Cons show ?thesis by (simp add: tables_skip)
  next
    case (Some q)
    obtain b' s' where q: "q = (b', s')" by (cases q)
    from tables_match [OF Some [unfolded q]] show ?thesis by auto
  qed
qed

lemma tables_complete: "tables_from (b, u @ [NL, PIPE] @ v @ [PIPE, NL] @ w) \<noteq> []"
proof -
  obtain b' s' where m: "match_at table_re (NL # rev u @ b, PIPE # v @ PIPE # NL # w) = Some (b', s')"
    using match_table_some [of "rev u @ b" v w] by auto
  from tables_match [OF m] have "tables_from (rev (u @ [NL]) @ b, PIPE # v @ PIPE # NL # w) \<noteq> []"
    by auto
  from tables_nonempty_skip [OF this] show ?thesis by simp
qed

section \<open>Replacing a text by a longer one\<close>

lemma str_replace_skip:
  "old \<noteq> [] \<Longrightarrow> hd old \<notin> set u \<Longrightarrow> str_replace old new (u @ s) = u @ str_replace old new s"
proof (induction u)
  case Nil
  then show ?case by simp
next
  case (Cons x u)
  then obtain o1 os where old: "old = o1 # os" by (cases old) auto
  with Cons.prems have "x \<noteq> o1" by auto
  then have "take (length old) (x # u @ s) \<noteq> old" using old by auto
  with Cons show ?case by simp
qed

lemma str_replace_none:
  "old \<noteq> [] \<Longrightarrow> hd old \<notin> set u \<Longrightarrow> str_replace old new u = u"
  using str_replace_skip [of old u new "[]"] by simp

lemma str_replace_here:
  "old \<noteq> [] \<Longrightarrow> str_replace old new (old @ s) = new @ str_replace old new s"
  by (cases old) simp_all

lemma str_replace_length_ge:
  "length old \<le> length new \<Longrightarrow> length s \<le> length (str_replace old new s)"
proof (induction old new s rule: str_replace.induct)
  case (1 old new)
  then show ?case by simp
next
  case (2 old new c cs)
  show ?case
  proof (cases "old = []")
    case True
    with 2 show ?thesis by simp
  next
    case False
    show ?thesis
    proof (cases "take (length old) (c # cs) = old")
      case True
      from 2(2) [OF False True "2.prems"]
      have "length (drop (length old) (c # cs)) \<le> length (str_replace old new (drop (length old) (c # cs)))" .
      moreover have "length old \<le> length (c # cs)"
      proof -
        from True have "length (take (length old) (c # cs)) = length old" by simp
        then show ?thesis by (simp del: take_Suc_Cons length_take add: length_take [of "length old" "c # cs"])
      qed
      ultimately have "length (c # cs) \<le> length new + length (str_replace old new (drop (length old) (c # cs)))"
        using "2.prems" by simp
      with False True show ?thesis by simp
    next
      case nm: False
      from 2(3) [OF False nm "2.prems"] False nm show ?thesis by simp
    qed
  qed
qed

lemma str_replace_length_gt:
  assumes "old \<noteq> []" and "length old < length new"
  shows "length (u @ old @ w) < length (str_replace old new (u @ old @ w))"
proof (induction u)
  case Nil
  have "length w \<le> length (str_replace old new w)"
    using assms(2) by (intro str_replace_length_ge) simp
  with assms show ?case by (simp add: str_replace_here)
next
  case (Cons x u)
  show ?case
  proof (cases "take (length old) ((x # u) @ old @ w) = old")
    case True
    let ?s = "(x # u) @ old @ w"
    have "length (drop (length old) ?s) \<le> length (str_replace old new (drop (length old) ?s))"
      using assms(2) by (intro str_replace_length_ge) simp
    moreover have "length old \<le> length ?s" by simp
    moreover have "str_replace old new ?s = new @ str_replace old new (drop (length old) ?s)"
      using True assms(1) by simp
    ultimately show ?thesis using assms(2) by simp
  next
    case False
    with Cons assms(1) show ?thesis by simp
  qed
qed

lemma str_replace_cases:
  "old \<noteq> [] \<Longrightarrow> str_replace old new s = s \<or> (\<exists>u w. str_replace old new s = u @ new @ w)"
proof (induction "length s" arbitrary: s rule: less_induct)
  case less
  show ?case
  proof (cases s)
    case Nil
    with less.prems show ?thesis by simp
  next
    case (Cons c cs)
    show ?thesis
    proof (cases "take (length old) (c # cs) = old")
      case True
      with less.prems Cons have "str_replace old new s = [] @ new @ str_replace old new (drop (length old) (c # cs))"
        by simp
      then show ?thesis by blast
    next
      case False
      with less.prems Cons have eq: "str_replace old new s = c # str_replace old new cs" by simp
      have "length cs < length s" using Cons by simp
      from less.hyps [OF this less.prems] show ?thesis
      proof
        assume "str_replace old new cs = cs"
        with eq Cons show ?thesis by simp
      next
        assume "\<exists>u w. str_replace old new cs = u @ new @ w"
        then obtain u w where "str_replace old new cs = u @ new @ w" by blast
        with eq have "str_replace old new s = (c # u) @ new @ w" by simp
        then show ?thesis by blast
      qed
    qed
  qed
qed

section \<open>Properties of fix\_tables.py\<close>

lemma fix_table_formatting_text_fold:
  "fix_table_formatting_text content = foldl pad_step content (findall table_re content)"
  by (simp add: fix_table_formatting_text_def)

lemma findall_table_shape:
  assumes "t \<in> set (findall table_re content)"
  shows "\<exists>u v w. content = u @ [NL] @ t @ [NL] @ w \<and> t = PIPE # v @ [PIPE]"
  using tables_sound [of t "[]" content] assms by (simp add: findall_def)

lemma has_table_iff: "has_table content \<longleftrightarrow> findall table_re content \<noteq> []"
proof
  assume "has_table content"
  then obtain u v w where "content = u @ [NL, PIPE] @ v @ [PIPE, NL] @ w"
    by (auto simp: has_table_def)
  then show "findall table_re content \<noteq> []"
    using tables_complete [of "[]" u v w] by (simp add: findall_def)
next
  assume "findall table_re content \<noteq> []"
  then obtain t where "t \<in> set (findall table_re content)" by (cases "findall table_re content") auto
  from findall_table_shape [OF this] obtain u v w where
    "content = u @ [NL] @ (PIPE # v @ [PIPE]) @ [NL] @ w" by blast
  then have "content = u @ [NL, PIPE] @ v @ [PIPE, NL] @ w" by simp
  then show "has_table content" unfolding has_table_def by blast
qed

lemma no_table_unchanged: "\<not> has_table content \<Longrightarrow> fix_table_formatting_text content = content"
  by (simp add: has_table_iff fix_table_formatting_text_def)

lemma pad_step_has_table:
  assumes "t = PIPE # v @ [PIPE]" and "has_table c"
  shows "has_table (pad_step c t)"
proof -
  from assms(1) have "t \<noteq> []" by simp
  from str_replace_cases [OF this, of "table_with_blanks t" c] show ?thesis
  proof
    assume "pad_step c t = c"
    with assms(2) show ?thesis by simp
  next
    assume "\<exists>u w. pad_step c t = u @ table_with_blanks t @ w"
    then obtain u w where "pad_step c t = u @ table_with_blanks t @ w" by blast
    then have "pad_step c t = u @ [NL, PIPE] @ v @ [PIPE, NL] @ w"
      using assms(1) by (simp add: table_with_blanks_def)
    then show ?thesis unfolding has_table_def by blast
  qed
qed

lemma foldl_pad_has_table:
  "\<forall>t\<in>set ts. \<exists>v. t = PIPE # v @ [PIPE] \<Longrightarrow> has_table c \<Longrightarrow> has_table (foldl pad_step c ts)"
proof (induction ts arbitrary: c)
  case Nil
  then show ?case by simp
next
  case (Cons t ts)
  from Cons.prems(1) obtain v where "t = PIPE # v @ [PIPE]" by auto
  from pad_step_has_table [OF this Cons.prems(2)] have "has_table (pad_step c t)" .
  with Cons show ?case by simp
qed

lemma fix_keeps_table:
  assumes "has_table content"
  shows "has_table (fix_table_formatting_text content)"
proof -
  have "\<forall>t\<in>set (findall table_re content). \<exists>v. t = PIPE # v @ [PIPE]"
    using findall_table_shape by blast
  from foldl_pad_has_table [OF this assms] show ?thesis
    by (simp add: fix_table_formatting_text_def)
qed

lemma foldl_pad_length_ge: "length c \<le> length (foldl pad_step c ts)"
proof (induction ts arbitrary: c)
  case Nil
  then show ?case by simp
next
  case (Cons t ts)
  have "length c \<le> length (pad_step c t)"
    by (intro str_replace_length_ge) (simp add: table_with_blanks_def)
  also have "\<dots> \<le> length (foldl pad_step (pad_step c t) ts)" by (rule Cons.IH)
  finally show ?case by simp
qed

lemma fix_grows:
  assumes "has_table content"
  shows "length content < length (fix_table_formatting_text content)"
proof -
  from assms obtain t ts where ts: "findall table_re content = t # ts"
    by (cases "findall table_re content") (auto simp: has_table_iff)
  then have "t \<in> set (findall table_re content)" by simp
  from findall_table_shape [OF this] obtain u v w where
    c: "content = u @ [NL] @ t @ [NL] @ w" and t: "t = PIPE # v @ [PIPE]" by blast
  from t have ne: "t \<noteq> []" by simp
  have "length ((u @ [NL]) @ t @ [NL] @ w) < length (pad_step ((u @ [NL]) @ t @ [NL] @ w) t)"
    using ne by (intro str_replace_length_gt) (simp_all add: table_with_blanks_def)
  with c have "length content < length (pad_step content t)" by simp
  also have "\<dots> \<le> length (foldl pad_step (pad_step content t) ts)" by (rule foldl_pad_length_ge)
  finally show ?thesis by (simp add: fix_table_formatting_text_def ts)
qed

text \<open>
  C3, as the code has it. The table spacer inserts its newlines on every run: a second run
  leaves the output of the first as it is exactly when the scan of the original content
  finds no table; whenever the scan finds one, the output still has a table in it and the
  second run makes it longer again.
\<close>

theorem fix_table_formatting_text_idempotent_iff:
  "fix_table_formatting_text (fix_table_formatting_text content) = fix_table_formatting_text content
   \<longleftrightarrow> findall table_re content = []"
proof
  assume idem: "fix_table_formatting_text (fix_table_formatting_text content) = fix_table_formatting_text content"
  show "findall table_re content = []"
  proof (rule ccontr)
    assume "findall table_re content \<noteq> []"
    then have "has_table content" by (simp add: has_table_iff)
    then have "has_table (fix_table_formatting_text content)" by (rule fix_keeps_table)
    from fix_grows [OF this] idem show False by simp
  qed
next
  assume "findall table_re content = []"
  then show "fix_table_formatting_text (fix_table_formatting_text content) = fix_table_formatting_text content"
    by (simp add: fix_table_formatting_text_def)
qed

lemma NL_neq_PIPE [simp]: "NL \<noteq> PIPE" "PIPE \<noteq> NL"
  by (simp_all add: NL_def PIPE_def)

section \<open>Replacing every occurrence\<close>



lemma str_replace_copy:
  "old \<noteq> [] \<Longrightarrow> take (length old) (c # cs) \<noteq> old \<Longrightarrow>
   str_replace old new (c # cs) = c # str_replace old new cs"
  by simp




lemma str_replace_self: "t \<noteq> [] \<Longrightarrow> str_replace t new t = new"
  using str_replace_here [of t new "[]"] by simp





section \<open>The shape of a found table\<close>












section \<open>The replacements around a table line\<close>

declare str_replace.simps [simp del]

lemma apply_tables_Nil [simp]: "apply_tables [] s = s"
  by (simp add: apply_tables_def)

lemma apply_tables_Cons [simp]: "apply_tables (t # ts) s = apply_tables ts (pad_step s t)"
  by (simp add: apply_tables_def)











text \<open>
  Every text splits at the occurrences of a text \<open>t\<close> that is not empty, leftmost first and
  without overlap: it is its pieces joined by \<open>t\<close>, no piece followed by \<open>t\<close> without its
  last character holds \<open>t\<close>, and the last piece does not hold it.
\<close>

lemma first_occurrence:
  assumes "sublist t s" and "t \<noteq> []"
  shows "\<exists>x w. s = x @ t @ w \<and> \<not> sublist t (x @ butlast t)"
  using assms
proof (induction s)
  case Nil
  then show ?case by simp
next
  case (Cons c s)
  show ?case
  proof (cases "prefix t (c # s)")
    case True
    then obtain w where w: "c # s = t @ w" by (auto simp: prefix_def)
    have "\<not> sublist t (butlast t)"
    proof
      assume "sublist t (butlast t)"
      then have "length t \<le> length (butlast t)" by (rule sublist_length_le)
      with Cons.prems(2) show False by (cases t rule: rev_cases) auto
    qed
    with w have "c # s = [] @ t @ w \<and> \<not> sublist t ([] @ butlast t)" by simp
    then show ?thesis by blast
  next
    case False
    with Cons.prems have "sublist t s" by (cases t) (auto simp: sublist_Cons_right)
    from Cons.IH [OF this Cons.prems(2)] obtain x w where x: "s = x @ t @ w" "\<not> sublist t (x @ butlast t)"
      by blast
    have "\<not> sublist t ((c # x) @ butlast t)"
    proof
      assume "sublist t ((c # x) @ butlast t)"
      with x(2) have p: "prefix t (c # x @ butlast t)"
        by (cases t) (auto simp: sublist_Cons_right)
      have "prefix (c # x @ butlast t) (c # s)"
        using x(1) by (cases t rule: rev_cases) auto
      with p have "prefix t (c # s)" by (rule prefix_order.trans)
      with False show False by simp
    qed
    with x(1) have "c # s = (c # x) @ t @ w \<and> \<not> sublist t ((c # x) @ butlast t)" by simp
    then show ?thesis by blast
  qed
qed

lemma occurrences_split:
  assumes "t \<noteq> []"
  shows "\<exists>xs. xs \<noteq> [] \<and> s = str_join t xs \<and>
              (\<forall>x\<in>set (butlast xs). \<not> sublist t (x @ butlast t)) \<and> \<not> sublist t (last xs)"
proof (induction "length s" arbitrary: s rule: less_induct)
  case less
  show ?case
  proof (cases "sublist t s")
    case False
    then have "[s] \<noteq> [] \<and> s = str_join t [s] \<and>
               (\<forall>x\<in>set (butlast [s]). \<not> sublist t (x @ butlast t)) \<and> \<not> sublist t (last [s])"
      by simp
    then show ?thesis by blast
  next
    case True
    from first_occurrence [OF this assms] obtain x w where
      x: "s = x @ t @ w" "\<not> sublist t (x @ butlast t)" by blast
    have "length w < length s" using x(1) assms by simp
    from less [OF this] obtain ys where
      ys: "ys \<noteq> []" "w = str_join t ys"
          "\<forall>y\<in>set (butlast ys). \<not> sublist t (y @ butlast t)" "\<not> sublist t (last ys)"
      by blast
    from ys(1) obtain y ys' where c: "ys = y # ys'" by (cases ys) auto
    have "x # ys \<noteq> [] \<and> s = str_join t (x # ys) \<and>
          (\<forall>z\<in>set (butlast (x # ys)). \<not> sublist t (z @ butlast t)) \<and> \<not> sublist t (last (x # ys))"
      using x ys c by simp
    then show ?thesis by blast
  qed
qed


text \<open>
  What happens where a hypothesis of the theorem on a block of one line fails: a table
  found twice is padded twice; a table of which another found table is a part is broken
  up; so is a table whose last pipe, with what follows it, is another found table, and a
  table whose beginning, with what stands before it, is another found table.
\<close>

lemma table_found_twice_padded_twice:
  "findall table_re ''x\<newline>|a|\<newline>y\<newline>|a|\<newline>z\<newline>'' = [''|a|'', ''|a|''] \<and>
   fix_table_formatting_text ''x\<newline>|a|\<newline>y\<newline>|a|\<newline>z\<newline>'' =
     ''x\<newline>\<newline>\<newline>|a|\<newline>\<newline>\<newline>y\<newline>\<newline>\<newline>|a|\<newline>\<newline>\<newline>z\<newline>''"
  by code_simp

lemma table_with_found_part_broken:
  "findall table_re ''x\<newline>|a|\<newline>y\<newline>|a|b|\<newline>z\<newline>'' = [''|a|'', ''|a|b|''] \<and>
   fix_table_formatting_text ''x\<newline>|a|\<newline>y\<newline>|a|b|\<newline>z\<newline>'' =
     ''x\<newline>\<newline>|a|\<newline>\<newline>y\<newline>\<newline>|a|\<newline>b|\<newline>z\<newline>''"
  by code_simp

lemma table_broken_at_its_last_pipe:
  "findall table_re ''z\<newline>|\<newline>foo|\<newline>x\<newline>|a|\<newline>foo|\<newline>'' = [''|\<newline>foo|'', ''|a|''] \<and>
   fix_table_formatting_text ''z\<newline>|\<newline>foo|\<newline>x\<newline>|a|\<newline>foo|\<newline>'' =
     ''z\<newline>\<newline>|\<newline>foo|\<newline>\<newline>x\<newline>|a\<newline>|\<newline>foo|\<newline>\<newline>''"
  by code_simp

lemma table_broken_at_its_first_pipes:
  "findall table_re ''k\<newline>|z\<newline>|a|\<newline>m\<newline>w |z\<newline>|a|b|\<newline>n\<newline>'' = [''|z\<newline>|a|'', ''|a|b|''] \<and>
   fix_table_formatting_text ''k\<newline>|z\<newline>|a|\<newline>m\<newline>w |z\<newline>|a|b|\<newline>n\<newline>'' =
     ''k\<newline>\<newline>|z\<newline>|a|\<newline>\<newline>m\<newline>w \<newline>|z\<newline>|a|\<newline>b|\<newline>n\<newline>''"
  by code_simp

text \<open>
  C10, as the code has it. A content without a pipe directly after a newline that is
  followed, later in the content, by a pipe directly before a newline is written back
  unchanged: the scan finds nothing.
\<close>

theorem no_table_pattern_unchanged:
  "\<not> (\<exists>u v w. content = u @ [NL, PIPE] @ v @ [PIPE, NL] @ w) \<Longrightarrow>
   fix_table_formatting_text content = content"
  using no_table_unchanged [of content] by (simp add: has_table_def)

text \<open>
  C1. Scenario B of the specification, \<open>"text\n|a|b|\n|c|d|\nmore text\n"\<close>. The lazy
  \<open>(?:\n\|.*?\|)*?\<close> never takes a second line, since what follows it, \<open>(?=\n)\<close>, holds
  wherever an iteration could start. The scan returns the two lines as two tables, each
  is padded on its own, and three newlines stand between them in the output instead of
  the one of the specification.
\<close>

theorem table_spacer_scenario_b:
  "findall table_re ''text\<newline>|a|b|\<newline>|c|d|\<newline>more text\<newline>'' = [''|a|b|'', ''|c|d|''] \<and>
   fix_table_formatting_text ''text\<newline>|a|b|\<newline>|c|d|\<newline>more text\<newline>'' =
     ''text\<newline>\<newline>|a|b|\<newline>\<newline>\<newline>|c|d|\<newline>\<newline>more text\<newline>'' \<and>
   fix_table_formatting_text ''text\<newline>|a|b|\<newline>|c|d|\<newline>more text\<newline>'' \<noteq>
     ''text\<newline>\<newline>|a|b|\<newline>|c|d|\<newline>\<newline>more text\<newline>''"
proof -
  have f: "findall table_re ''text\<newline>|a|b|\<newline>|c|d|\<newline>more text\<newline>'' = [''|a|b|'', ''|c|d|'']"
    by code_simp
  have o: "fix_table_formatting_text ''text\<newline>|a|b|\<newline>|c|d|\<newline>more text\<newline>'' =
     ''text\<newline>\<newline>|a|b|\<newline>\<newline>\<newline>|c|d|\<newline>\<newline>more text\<newline>''"
    by code_simp
  from f o show ?thesis by simp
qed


text \<open>
  Two runs on \<open>"x\n|a|\ny\n"\<close>: the second run pads the table once more.
\<close>

theorem table_spacer_second_run_adds_blanks:
  "fix_table_formatting_text (fix_table_formatting_text ''x\<newline>|a|\<newline>y\<newline>'') \<noteq>
   fix_table_formatting_text ''x\<newline>|a|\<newline>y\<newline>''"
proof -
  have 1: "fix_table_formatting_text ''x\<newline>|a|\<newline>y\<newline>'' = ''x\<newline>\<newline>|a|\<newline>\<newline>y\<newline>''"
    by code_simp
  have 2: "fix_table_formatting_text ''x\<newline>\<newline>|a|\<newline>\<newline>y\<newline>'' = ''x\<newline>\<newline>\<newline>|a|\<newline>\<newline>\<newline>y\<newline>''"
    by code_simp
  from 1 2 show ?thesis by simp
qed

text \<open>
  Both sides of the equivalence: a table on the last line, without a newline after it, is
  not found and nothing changes; a table between two newlines is found and a second run
  changes the content again.
\<close>

theorem fix_table_formatting_text_idempotent_iff_witness:
  "findall table_re ''plain\<newline>|a|b|'' = [] \<and>
   fix_table_formatting_text (fix_table_formatting_text ''plain\<newline>|a|b|'') =
     fix_table_formatting_text ''plain\<newline>|a|b|'' \<and>
   findall table_re ''x\<newline>|a|b|\<newline>'' \<noteq> [] \<and>
   fix_table_formatting_text (fix_table_formatting_text ''x\<newline>|a|b|\<newline>'') \<noteq>
     fix_table_formatting_text ''x\<newline>|a|b|\<newline>''"
proof -
  have 1: "findall table_re ''plain\<newline>|a|b|'' = []" by code_simp
  have 2: "findall table_re ''x\<newline>|a|b|\<newline>'' = [''|a|b|'']" by code_simp
  from fix_table_formatting_text_idempotent_iff [of "''plain\<newline>|a|b|''"]
       fix_table_formatting_text_idempotent_iff [of "''x\<newline>|a|b|\<newline>''"] 1 2
  show ?thesis by simp
qed

text \<open>
  Under \<open>re.DOTALL\<close> the first \<open>.*?\<close> runs over newlines: in \<open>"x\n|a\nb|\ny\n"\<close> no line
  both begins and ends with a pipe, and yet the scan finds \<open>"|a\nb|"\<close> and the content
  changes.
\<close>

theorem table_spanning_lines_changed:
  "fix_table_formatting_text ''x\<newline>|a\<newline>b|\<newline>y\<newline>'' = ''x\<newline>\<newline>|a\<newline>b|\<newline>\<newline>y\<newline>'' \<and>
   fix_table_formatting_text ''x\<newline>|a\<newline>b|\<newline>y\<newline>'' \<noteq> ''x\<newline>|a\<newline>b|\<newline>y\<newline>''"
proof -
  have "fix_table_formatting_text ''x\<newline>|a\<newline>b|\<newline>y\<newline>'' = ''x\<newline>\<newline>|a\<newline>b|\<newline>\<newline>y\<newline>''"
    by code_simp
  then show ?thesis by simp
qed

text \<open>
  The theorem at \<open>"x\n|a|"\<close>, a table on the last line with no newline after it.
\<close>

theorem no_table_pattern_unchanged_witness:
  "\<not> (\<exists>u v w. ''x\<newline>|a|'' = u @ [NL, PIPE] @ v @ [PIPE, NL] @ w) \<and>
   fix_table_formatting_text ''x\<newline>|a|'' = ''x\<newline>|a|''"
proof -
  have "findall table_re ''x\<newline>|a|'' = []" by code_simp
  then have h: "\<not> (\<exists>u v w. ''x\<newline>|a|'' = u @ [NL, PIPE] @ v @ [PIPE, NL] @ w)"
    using has_table_iff [of "''x\<newline>|a|''"] by (simp add: has_table_def)
  from no_table_pattern_unchanged [OF h] h show ?thesis by blast
qed





end
